theory Spec2Isabelle
  imports Main "HOL-Library.AList"
begin

section \<open>Data model of \<open>src/main.py\<close>\<close>

text \<open>
  Node values. The type variable \<open>T\<close> of the source ranges over \<open>str\<close>, \<open>int\<close> and
  \<open>tuple\<close>; \<open>add_edge\<close> checks it at run time with \<open>isinstance\<close>, so the model also
  has one hashable value outside the three types (\<open>None\<close>), which makes the failing
  branch of that check reachable. Equality is value equality, as for Python's \<open>==\<close>
  on these types.
\<close>

datatype node = IntN int | StrN string | TupleN "node list" | NoneN

text \<open>\<open>isinstance(x, (int, str, tuple))\<close>\<close>

fun isinstance_T :: "node \<Rightarrow> bool" where
  "isinstance_T (IntN i) = True"
| "isinstance_T (StrN s) = True"
| "isinstance_T (TupleN xs) = True"
| "isinstance_T NoneN = False"

text \<open>
  The exceptions the modelled methods can raise: the two \<open>raise\<close> statements of
  \<open>add_edge\<close>, and the \<open>KeyError\<close> of a dictionary subscript on a missing key.
\<close>

datatype error = TypeError string | ValueError string | KeyError node

text \<open>
  The class \<open>Graph\<close> has the single field \<open>adj_list\<close>, a \<open>dict\<close> from nodes to lists
  of nodes. A Python \<open>dict\<close> iterates in insertion order, and \<open>is_cyclic\<close> and
  \<open>remove_node\<close> iterate over it, so it is an association list in insertion order.
\<close>

record graph =
  adj_list :: "(node \<times> node list) list"

text \<open>\<open>Graph.__init__\<close>\<close>

definition init_graph :: graph where
  "init_graph = \<lparr>adj_list = []\<rparr>"

text \<open>\<open>node in self.adj_list\<close>\<close>

definition contains :: "graph \<Rightarrow> node \<Rightarrow> bool" where
  "contains g n = (map_of (adj_list g) n \<noteq> None)"

text \<open>\<open>self.adj_list[k]\<close> as an expression: raises \<open>KeyError\<close> on a missing key.\<close>

definition getitem :: "graph \<Rightarrow> node \<Rightarrow> error + node list" where
  "getitem g k = (case map_of (adj_list g) k of None \<Rightarrow> Inl (KeyError k) | Some ns \<Rightarrow> Inr ns)"

text \<open>
  \<open>self.adj_list[k].append(v)\<close>: the list stored under \<open>k\<close> grows at its end; the
  key keeps its position in the dictionary.
\<close>

definition append_neighbor :: "graph \<Rightarrow> node \<Rightarrow> node \<Rightarrow> error + graph" where
  "append_neighbor g k v =
     (case getitem g k of
        Inl e \<Rightarrow> Inl e
      | Inr ns \<Rightarrow> Inr (g\<lparr>adj_list := AList.update k (ns @ [v]) (adj_list g)\<rparr>))"

text \<open>
  \<open>Graph.add_node\<close>: \<open>self.adj_list[node] = []\<close> on a new key appends the entry at
  the end of the dictionary.
\<close>

definition add_node :: "graph \<Rightarrow> node \<Rightarrow> graph" where
  "add_node g n =
     (if \<not> contains g n then g\<lparr>adj_list := AList.update n [] (adj_list g)\<rparr> else g)"

text \<open>
  \<open>Graph.add_edge\<close>. Both \<open>raise\<close> statements come before any mutation. The
  second subscript \<open>self.adj_list[to_node]\<close> is evaluated only when
  \<open>bidirectional\<close> holds (\<open>and\<close> short-circuits).
\<close>

definition add_edge :: "graph \<Rightarrow> node \<Rightarrow> node \<Rightarrow> bool \<Rightarrow> error + graph" where
  "add_edge g from_node to_node bidirectional =
     (if \<not> (isinstance_T from_node \<and> isinstance_T to_node)
      then Inl (TypeError ''Nodes must be hashable types'')
      else if from_node = to_node
      then Inl (ValueError ''Self loops are not allowed'')
      else
        let g1 = add_node (add_node g from_node) to_node in
        case getitem g1 from_node of
          Inl e \<Rightarrow> Inl e
        | Inr ns \<Rightarrow>
            (case (if to_node \<notin> set ns then append_neighbor g1 from_node to_node else Inr g1) of
               Inl e \<Rightarrow> Inl e
             | Inr g2 \<Rightarrow>
                 if bidirectional
                 then (case getitem g2 to_node of
                         Inl e \<Rightarrow> Inl e
                       | Inr ms \<Rightarrow>
                           if from_node \<notin> set ms then append_neighbor g2 to_node from_node
                           else Inr g2)
                 else Inr g2))"

text \<open>\<open>Graph.get_neighbors\<close>: \<open>self.adj_list.get(node, [])\<close>\<close>

definition get_neighbors :: "graph \<Rightarrow> node \<Rightarrow> node list" where
  "get_neighbors g n = (case map_of (adj_list g) n of None \<Rightarrow> [] | Some ns \<Rightarrow> ns)"

text \<open>
  \<open>Graph.remove_node\<close>. The loop visits every entry of the dictionary (the entry of
  \<open>node\<close> itself too); \<open>self.adj_list[other_node]\<close> is the list of the entry being
  visited, and \<open>list.remove\<close> deletes the first occurrence only. Afterwards
  \<open>del self.adj_list[node]\<close> drops the entry of \<open>node\<close>.
\<close>

definition remove_from_entry :: "node \<Rightarrow> node \<times> node list \<Rightarrow> node \<times> node list" where
  "remove_from_entry n e = (if n \<in> set (snd e) then (fst e, remove1 n (snd e)) else e)"

definition remove_node :: "graph \<Rightarrow> node \<Rightarrow> graph" where
  "remove_node g n =
     (if contains g n
      then g\<lparr>adj_list := AList.delete n (map (remove_from_entry n) (adj_list g))\<rparr>
      else g)"

section \<open>Traversals\<close>

text \<open>
  The inner loop of \<open>bfs\<close>: every neighbour that is not yet in \<open>visited\<close> is
  added to \<open>visited\<close> and appended to the queue, in the stored order.
\<close>

fun enqueue_unvisited :: "node list \<Rightarrow> node set \<Rightarrow> node list \<Rightarrow> node set \<times> node list" where
  "enqueue_unvisited [] visited queue = (visited, queue)"
| "enqueue_unvisited (neighbor # rest) visited queue =
     (if neighbor \<notin> visited
      then enqueue_unvisited rest (insert neighbor visited) (queue @ [neighbor])
      else enqueue_unvisited rest visited queue)"

text \<open>The inner loop of \<open>shortest_path\<close>: the queue holds pairs of a node and its path.\<close>

fun enqueue_paths ::
  "node list \<Rightarrow> node list \<Rightarrow> node set \<Rightarrow> (node \<times> node list) list
     \<Rightarrow> node set \<times> (node \<times> node list) list" where
  "enqueue_paths [] path visited queue = (visited, queue)"
| "enqueue_paths (neighbor # rest) path visited queue =
     (if neighbor \<notin> visited
      then enqueue_paths rest path (insert neighbor visited) (queue @ [(neighbor, path @ [neighbor])])
      else enqueue_paths rest path visited queue)"

text \<open>
  Every node that can be enqueued is a neighbour stored in the graph; this finite set
  bounds the \<open>while\<close> loops and the recursion of \<open>dfs_cycle\<close>.
\<close>

definition all_neighbors :: "graph \<Rightarrow> node set" where
  "all_neighbors g = (\<Union>e \<in> set (adj_list g). set (snd e))"

lemma finite_all_neighbors: "finite (all_neighbors g)"
  by (simp add: all_neighbors_def)

lemma get_neighbors_subset: "set (get_neighbors g n) \<subseteq> all_neighbors g"
proof (cases "map_of (adj_list g) n")
  case None
  then show ?thesis by (simp add: get_neighbors_def)
next
  case (Some ns)
  then have "(n, ns) \<in> set (adj_list g)" by (rule map_of_SomeD)
  then have "set ns \<subseteq> all_neighbors g" unfolding all_neighbors_def by force
  with Some show ?thesis by (simp add: get_neighbors_def)
qed

lemma enqueue_unvisited_measure:
  "finite U \<Longrightarrow> set ns \<subseteq> U \<Longrightarrow> enqueue_unvisited ns visited queue = (visited', queue') \<Longrightarrow>
   card (U - visited') + length queue' = card (U - visited) + length queue"
proof (induction ns arbitrary: visited queue)
  case Nil
  then show ?case by simp
next
  case (Cons n ns)
  show ?case
  proof (cases "n \<in> visited")
    case True
    with Cons show ?thesis by simp
  next
    case False
    from Cons.prems have nU: "n \<in> U" by simp
    have "U - visited = insert n (U - insert n visited)" using False nU by auto
    moreover have "n \<notin> U - insert n visited" by simp
    ultimately have c: "card (U - visited) = Suc (card (U - insert n visited))"
      using Cons.prems(1) by (metis card_insert_disjoint finite_Diff)
    from Cons.prems False
    have "enqueue_unvisited ns (insert n visited) (queue @ [n]) = (visited', queue')" by simp
    from Cons.IH[OF Cons.prems(1) _ this] Cons.prems(2)
    have "card (U - visited') + length queue' = card (U - insert n visited) + length (queue @ [n])"
      by simp
    with c show ?thesis by simp
  qed
qed

lemma enqueue_paths_measure:
  "finite U \<Longrightarrow> set ns \<subseteq> U \<Longrightarrow> enqueue_paths ns path visited queue = (visited', queue') \<Longrightarrow>
   card (U - visited') + length queue' = card (U - visited) + length queue"
proof (induction ns arbitrary: visited queue)
  case Nil
  then show ?case by simp
next
  case (Cons n ns)
  show ?case
  proof (cases "n \<in> visited")
    case True
    with Cons show ?thesis by simp
  next
    case False
    from Cons.prems have nU: "n \<in> U" by simp
    have "U - visited = insert n (U - insert n visited)" using False nU by auto
    moreover have "n \<notin> U - insert n visited" by simp
    ultimately have c: "card (U - visited) = Suc (card (U - insert n visited))"
      using Cons.prems(1) by (metis card_insert_disjoint finite_Diff)
    from Cons.prems False
    have "enqueue_paths ns path (insert n visited) (queue @ [(n, path @ [n])]) = (visited', queue')"
      by simp
    from Cons.IH[OF Cons.prems(1) _ this] Cons.prems(2)
    have "card (U - visited') + length queue'
          = card (U - insert n visited) + length (queue @ [(n, path @ [n])])"
      by simp
    with c show ?thesis by simp
  qed
qed

text \<open>
  The \<open>while queue:\<close> loop of \<open>bfs\<close>; \<open>queue.popleft()\<close> takes the head. Each
  iteration removes one queue element, and every element added leaves the finite set
  of unvisited neighbours, so the loop ends.
\<close>

function bfs_loop :: "graph \<Rightarrow> node set \<Rightarrow> node list \<Rightarrow> node list \<Rightarrow> node list" where
  "bfs_loop g visited [] order = order"
| "bfs_loop g visited (current # queue) order =
     (case enqueue_unvisited (get_neighbors g current) visited queue of
        (visited', queue') \<Rightarrow> bfs_loop g visited' queue' (order @ [current]))"
  by pat_completeness auto
termination
  apply (relation "measure (\<lambda>(g, visited, queue, order). card (all_neighbors g - visited) + length queue)")
   apply simp
  subgoal for g visited current queue order visited' queue'
    using enqueue_unvisited_measure[OF finite_all_neighbors get_neighbors_subset, of g current visited queue visited' queue']
    by simp
  done

definition bfs :: "graph \<Rightarrow> node \<Rightarrow> node list" where
  "bfs g start = bfs_loop g (insert start {}) [start] []"

definition has_path :: "graph \<Rightarrow> node \<Rightarrow> node \<Rightarrow> bool" where
  "has_path g start end_node = (end_node \<in> set (bfs g start))"

text \<open>
  \<open>Graph.shortest_path\<close>: the same loop over pairs, left at the first dequeued
  \<open>vertex == end\<close>.
\<close>

function shortest_path_loop ::
  "graph \<Rightarrow> node \<Rightarrow> node set \<Rightarrow> (node \<times> node list) list \<Rightarrow> node list" where
  "shortest_path_loop g end_node visited [] = []"
| "shortest_path_loop g end_node visited ((vertex, path) # queue) =
     (if vertex = end_node then path
      else (case enqueue_paths (get_neighbors g vertex) path visited queue of
              (visited', queue') \<Rightarrow> shortest_path_loop g end_node visited' queue'))"
  by pat_completeness auto
termination
  apply (relation "measure (\<lambda>(g, end_node, visited, queue). card (all_neighbors g - visited) + length queue)")
   apply simp
  subgoal for g end_node visited vertex path queue visited' queue'
    using enqueue_paths_measure[OF finite_all_neighbors get_neighbors_subset, of g vertex path visited queue]
    by (cases "enqueue_paths (get_neighbors g vertex) path visited queue") simp
  done

definition shortest_path :: "graph \<Rightarrow> node \<Rightarrow> node \<Rightarrow> node list" where
  "shortest_path g start end_node =
     (if \<not> contains g start \<or> \<not> contains g end_node then []
      else shortest_path_loop g end_node (insert start {}) [(start, [start])])"

text \<open>
  The local function \<open>dfs_cycle\<close> of \<open>Graph.is_cyclic\<close>. The set \<open>visited\<close> is
  shared by all calls and mutated in place, so each call returns it with its result;
  \<open>dfs_cycle_for\<close> is the \<open>for neighbor in ...\<close> loop of one call. The
  interpreter's recursion limit is not modelled.
\<close>

function dfs_cycle :: "graph \<Rightarrow> node \<Rightarrow> node \<Rightarrow> node set \<Rightarrow> bool \<times> node set"
  and dfs_cycle_for :: "graph \<Rightarrow> node \<Rightarrow> node \<Rightarrow> node list \<Rightarrow> node set \<Rightarrow> bool \<times> node set" where
  "dfs_cycle g node parent visited =
     dfs_cycle_for g node parent (get_neighbors g node) (insert node visited)"
| "dfs_cycle_for g node parent [] visited = (False, visited)"
| "dfs_cycle_for g node parent (neighbor # rest) visited =
     (if neighbor \<notin> visited
      then (let r = dfs_cycle g neighbor node visited
            in if fst r then (True, snd r) else dfs_cycle_for g node parent rest (snd r))
      else if neighbor \<noteq> parent then (True, visited)
      else dfs_cycle_for g node parent rest visited)"
  by pat_completeness auto

text \<open>
  The recursion is nested: the loop continues with the set the recursive call returns.
  Where a call returns, the set it returns contains the set it was given; with this
  the number of unvisited nodes bounds the recursion.
\<close>

lemma dfs_cycle_grows:
  "dfs_cycle_dfs_cycle_for_dom (Inl (g, node, parent, visited)) \<Longrightarrow>
     visited \<subseteq> snd (dfs_cycle g node parent visited)"
  "dfs_cycle_dfs_cycle_for_dom (Inr (g, node, parent, ns, visited)) \<Longrightarrow>
     visited \<subseteq> snd (dfs_cycle_for g node parent ns visited)"
proof (induction g node parent visited and g node parent ns visited
       rule: dfs_cycle_dfs_cycle_for.pinduct)
  case (1 g node parent visited)
  then show ?case by (auto simp: dfs_cycle.psimps)
next
  case (2 g node parent visited)
  then show ?case by (simp add: dfs_cycle_for.psimps)
next
  case (3 g node parent neighbor rest visited)
  show ?case
  proof (cases "neighbor \<in> visited")
    case True
    with 3(1,4) show ?thesis by (simp add: dfs_cycle_for.psimps)
  next
    case False
    let ?r = "dfs_cycle g neighbor node visited"
    have a: "visited \<subseteq> snd ?r" using 3(2)[OF False] .
    show ?thesis
    proof (cases "fst ?r")
      case True
      with False a 3(1) show ?thesis by (simp add: dfs_cycle_for.psimps Let_def)
    next
      case f: False
      have "snd ?r \<subseteq> snd (dfs_cycle_for g node parent rest (snd ?r))"
        using 3(3)[OF False refl f] .
      with a False f 3(1) show ?thesis by (auto simp add: dfs_cycle_for.psimps Let_def)
    qed
  qed
qed

termination dfs_cycle
proof (relation "inv_image (less_than <*lex*> less_than)
      (\<lambda>x. case x of
         Inl (g, node, parent, visited) \<Rightarrow>
           (card (all_neighbors g - insert node visited), Suc (length (get_neighbors g node)))
       | Inr (g, node, parent, ns, visited) \<Rightarrow>
           (card ((all_neighbors g \<union> set ns) - visited), length ns))", goal_cases)
  case 1
  show ?case by (intro wf_inv_image wf_lex_prod wf_less_than)
next
  case (2 g node parent visited)
  have "all_neighbors g \<union> set (get_neighbors g node) = all_neighbors g"
    using get_neighbors_subset[of g node] by auto
  then show ?case by simp
next
  case (3 g node parent neighbor rest visited)
  have fin: "finite ((all_neighbors g \<union> set (neighbor # rest)) - visited)"
    by (simp add: finite_all_neighbors)
  have "all_neighbors g - insert neighbor visited
          \<subset> (all_neighbors g \<union> set (neighbor # rest)) - visited"
    using 3 by auto
  from psubset_card_mono[OF fin this] show ?case by simp
next
  case (4 g node parent neighbor rest visited x)
  from 4 have "visited \<subseteq> snd x" using dfs_cycle_grows(1) by simp
  then have "(all_neighbors g \<union> set rest) - snd x
          \<subseteq> (all_neighbors g \<union> set (neighbor # rest)) - visited"
    by auto
  moreover have "finite ((all_neighbors g \<union> set (neighbor # rest)) - visited)"
    by (simp add: finite_all_neighbors)
  ultimately have "card ((all_neighbors g \<union> set rest) - snd x)
          \<le> card ((all_neighbors g \<union> set (neighbor # rest)) - visited)"
    by (rule card_mono[rotated])
  then show ?case by auto
next
  case (5 g node parent neighbor rest visited)
  have "(all_neighbors g \<union> set rest) - visited
          \<subseteq> (all_neighbors g \<union> set (neighbor # rest)) - visited"
    by auto
  moreover have "finite ((all_neighbors g \<union> set (neighbor # rest)) - visited)"
    by (simp add: finite_all_neighbors)
  ultimately have "card ((all_neighbors g \<union> set rest) - visited)
          \<le> card ((all_neighbors g \<union> set (neighbor # rest)) - visited)"
    by (rule card_mono[rotated])
  then show ?case by auto
qed

fun is_cyclic_for :: "graph \<Rightarrow> node list \<Rightarrow> node set \<Rightarrow> bool" where
  "is_cyclic_for g [] visited = False"
| "is_cyclic_for g (node # rest) visited =
     (if node \<notin> visited
      then (let r = dfs_cycle g node node visited
            in if fst r then True else is_cyclic_for g rest (snd r))
      else is_cyclic_for g rest visited)"

definition is_cyclic :: "graph \<Rightarrow> bool" where
  "is_cyclic g = is_cyclic_for g (map fst (adj_list g)) {}"

text \<open>\<open>build_sample_graph\<close>: the \<open>for\<close> loop over the edge list, with the default
  \<open>bidirectional=True\<close>.\<close>

fun add_edges :: "graph \<Rightarrow> (node \<times> node) list \<Rightarrow> error + graph" where
  "add_edges g [] = Inr g"
| "add_edges g ((from_node, to_node) # rest) =
     (case add_edge g from_node to_node True of
        Inl e \<Rightarrow> Inl e
      | Inr g' \<Rightarrow> add_edges g' rest)"

definition sample_edges :: "(node \<times> node) list" where
  "sample_edges =
     [(StrN ''A'', StrN ''B''), (StrN ''A'', StrN ''C''), (StrN ''B'', StrN ''D''),
      (StrN ''B'', StrN ''E''), (StrN ''C'', StrN ''F''), (StrN ''E'', StrN ''F''),
      (StrN ''F'', StrN ''G'')]"

definition build_sample_graph :: "error + graph" where
  "build_sample_graph = add_edges init_graph sample_edges"

text \<open>
  The adjacency structure \<open>build_sample_graph\<close> returns, written out, and the one
  after the further call \<open>add_edge('D', 'G')\<close> (\<open>build_sample\<close> and \<open>sample_add_DG\<close>
  below prove that they are these).
\<close>

definition sample_graph :: graph where
  "sample_graph = \<lparr>adj_list =
     [(StrN ''A'', [StrN ''B'', StrN ''C'']),
      (StrN ''B'', [StrN ''A'', StrN ''D'', StrN ''E'']),
      (StrN ''C'', [StrN ''A'', StrN ''F'']),
      (StrN ''D'', [StrN ''B'']),
      (StrN ''E'', [StrN ''B'', StrN ''F'']),
      (StrN ''F'', [StrN ''C'', StrN ''E'', StrN ''G'']),
      (StrN ''G'', [StrN ''F''])]\<rparr>"

definition sample_graph_DG :: graph where
  "sample_graph_DG = \<lparr>adj_list =
     [(StrN ''A'', [StrN ''B'', StrN ''C'']),
      (StrN ''B'', [StrN ''A'', StrN ''D'', StrN ''E'']),
      (StrN ''C'', [StrN ''A'', StrN ''F'']),
      (StrN ''D'', [StrN ''B'', StrN ''G'']),
      (StrN ''E'', [StrN ''B'', StrN ''F'']),
      (StrN ''F'', [StrN ''C'', StrN ''E'', StrN ''G'']),
      (StrN ''G'', [StrN ''F'', StrN ''D''])]\<rparr>"

section \<open>Invariants of the adjacency structure\<close>

text \<open>
  No dangling neighbours: every node in a neighbour list is a key of the dictionary.
  No duplicates: no neighbour list holds a node twice. \<open>add_edge\<close> is the only method
  that appends to a neighbour list, and it tests \<open>not in\<close> first.
\<close>

definition no_dangling :: "graph \<Rightarrow> bool" where
  "no_dangling g = (\<forall>e \<in> set (adj_list g). \<forall>n \<in> set (snd e). contains g n)"

definition no_duplicates :: "graph \<Rightarrow> bool" where
  "no_duplicates g = (\<forall>e \<in> set (adj_list g). distinct (snd e))"

text \<open>The graphs that the methods of the class can build from \<open>Graph()\<close>.\<close>

inductive reachable :: "graph \<Rightarrow> bool" where
  reachable_init: "reachable init_graph"
| reachable_add_node: "reachable g \<Longrightarrow> reachable (add_node g n)"
| reachable_add_edge: "reachable g \<Longrightarrow> add_edge g a b bidirectional = Inr g' \<Longrightarrow> reachable g'"
| reachable_remove_node: "reachable g \<Longrightarrow> reachable (remove_node g n)"

section \<open>List objects and aliasing\<close>

text \<open>
  The definitions above treat a neighbour list as a value. In Python it is an object:
  the dictionary holds a reference to it, and \<open>get_neighbors\<close> returns a reference.
  To state what a caller can do with the returned list, this section models the list
  objects explicitly: a reference is an index into the heap of list objects, and the
  dictionary maps a node to the reference of its list.
\<close>

type_synonym ref = nat

record pyheap =
  adj_refs :: "(node \<times> ref) list"
  list_objects :: "node list list"

text \<open>\<open>Graph.__init__\<close> on the heap.\<close>

definition init_heap :: pyheap where
  "init_heap = \<lparr>adj_refs = [], list_objects = []\<rparr>"

text \<open>The expression \<open>[]\<close>: a new, empty list object.\<close>

definition new_list :: "pyheap \<Rightarrow> ref \<times> pyheap" where
  "new_list h = (length (list_objects h), h\<lparr>list_objects := list_objects h @ [[]]\<rparr>)"

text \<open>The elements of the list object \<open>r\<close>.\<close>

definition list_items :: "pyheap \<Rightarrow> ref \<Rightarrow> node list" where
  "list_items h r = (if r < length (list_objects h) then list_objects h ! r else [])"

text \<open>\<open>l.append(v)\<close> on the list object \<open>r\<close>, by the class or by a caller.\<close>

definition list_append :: "pyheap \<Rightarrow> ref \<Rightarrow> node \<Rightarrow> pyheap" where
  "list_append h r v =
     (if r < length (list_objects h)
      then h\<lparr>list_objects := (list_objects h)[r := list_objects h ! r @ [v]]\<rparr>
      else h)"

text \<open>\<open>Graph.add_node\<close> on the heap: the new key refers to a new list object.\<close>

definition ref_add_node :: "pyheap \<Rightarrow> node \<Rightarrow> pyheap" where
  "ref_add_node h n =
     (if map_of (adj_refs h) n = None
      then (case new_list h of (r, h') \<Rightarrow> h'\<lparr>adj_refs := AList.update n r (adj_refs h')\<rparr>)
      else h)"

text \<open>\<open>Graph.add_edge\<close> on the heap: \<open>append\<close> mutates the list object in place.\<close>

definition ref_add_edge :: "pyheap \<Rightarrow> node \<Rightarrow> node \<Rightarrow> bool \<Rightarrow> error + pyheap" where
  "ref_add_edge h from_node to_node bidirectional =
     (if \<not> (isinstance_T from_node \<and> isinstance_T to_node)
      then Inl (TypeError ''Nodes must be hashable types'')
      else if from_node = to_node
      then Inl (ValueError ''Self loops are not allowed'')
      else
        let h1 = ref_add_node (ref_add_node h from_node) to_node in
        case map_of (adj_refs h1) from_node of
          None \<Rightarrow> Inl (KeyError from_node)
        | Some rf \<Rightarrow>
            let h2 = (if to_node \<notin> set (list_items h1 rf) then list_append h1 rf to_node else h1)
            in if bidirectional
               then (case map_of (adj_refs h2) to_node of
                       None \<Rightarrow> Inl (KeyError to_node)
                     | Some rt \<Rightarrow>
                         Inr (if from_node \<notin> set (list_items h2 rt)
                              then list_append h2 rt from_node else h2))
               else Inr h2)"

text \<open>
  \<open>Graph.get_neighbors\<close> on the heap: \<open>self.adj_list.get(node, [])\<close>. The default
  \<open>[]\<close> is evaluated before the call, so a list object is created in either case;
  the result is the reference stored under \<open>node\<close>, or the new object when the key is
  missing. No copy is made.
\<close>

definition ref_get_neighbors :: "pyheap \<Rightarrow> node \<Rightarrow> ref \<times> pyheap" where
  "ref_get_neighbors h n =
     (case new_list h of (d, h') \<Rightarrow>
        (case map_of (adj_refs h') n of None \<Rightarrow> (d, h') | Some r \<Rightarrow> (r, h')))"

text \<open>The adjacency structure a heap stores, as a value.\<close>

definition stored_graph :: "pyheap \<Rightarrow> graph" where
  "stored_graph h = \<lparr>adj_list = map (\<lambda>e. (fst e, list_items h (snd e))) (adj_refs h)\<rparr>"

text \<open>
  Every reference of the dictionary is an existing list object, and no two keys share
  one.
\<close>

definition refs_allocated :: "pyheap \<Rightarrow> bool" where
  "refs_allocated h = (\<forall>e \<in> set (adj_refs h). snd e < length (list_objects h))"

definition heap_ok :: "pyheap \<Rightarrow> bool" where
  "heap_ok h = (refs_allocated h \<and> distinct (map snd (adj_refs h)))"

text \<open>The heap after \<open>g = Graph(); g.add_edge('A', 'B')\<close>, and after a further
  \<open>g.get_neighbors('A')\<close>.\<close>

definition heap_AB :: pyheap where
  "heap_AB = \<lparr>adj_refs = [(StrN ''A'', 0), (StrN ''B'', 1)],
              list_objects = [[StrN ''B''], [StrN ''A'']]\<rparr>"

definition heap_AB' :: pyheap where
  "heap_AB' = \<lparr>adj_refs = [(StrN ''A'', 0), (StrN ''B'', 1)],
              list_objects = [[StrN ''B''], [StrN ''A''], []]\<rparr>"

section \<open>The sample graph\<close>

lemmas mutation_defs = add_edge_def add_node_def contains_def getitem_def append_neighbor_def

lemma build_sample: "build_sample_graph = Inr sample_graph"
  by (simp add: build_sample_graph_def sample_edges_def sample_graph_def init_graph_def
      mutation_defs)

lemma sample_add_DG:
  "add_edge sample_graph (StrN ''D'') (StrN ''G'') True = Inr sample_graph_DG"
  by (simp add: sample_graph_def sample_graph_DG_def mutation_defs)

lemma is_cyclic_sample: "is_cyclic sample_graph = True"
  by (simp add: is_cyclic_def sample_graph_def get_neighbors_def)

lemma is_cyclic_sample_DG: "is_cyclic sample_graph_DG = True"
  by (simp add: is_cyclic_def sample_graph_DG_def get_neighbors_def)

text \<open>
  For comparison, the six edges without E-F form a tree: there \<open>is_cyclic\<close> is
  \<open>False\<close>, and \<open>True\<close> once D-G is added.
\<close>

lemma is_cyclic_tree:
  "map_sum id is_cyclic
     (add_edges init_graph
        [(StrN ''A'', StrN ''B''), (StrN ''A'', StrN ''C''), (StrN ''B'', StrN ''D''),
         (StrN ''B'', StrN ''E''), (StrN ''C'', StrN ''F''), (StrN ''F'', StrN ''G'')])
   = Inr False"
  by (simp add: init_graph_def mutation_defs is_cyclic_def get_neighbors_def)

lemma is_cyclic_tree_DG:
  "map_sum id is_cyclic
     (add_edges init_graph
        [(StrN ''A'', StrN ''B''), (StrN ''A'', StrN ''C''), (StrN ''B'', StrN ''D''),
         (StrN ''B'', StrN ''E''), (StrN ''C'', StrN ''F''), (StrN ''F'', StrN ''G''),
         (StrN ''D'', StrN ''G'')])
   = Inr True"
  by (simp add: init_graph_def mutation_defs is_cyclic_def get_neighbors_def)

lemma shortest_path_sample:
  "shortest_path sample_graph (StrN ''A'') (StrN ''G'')
     = [StrN ''A'', StrN ''C'', StrN ''F'', StrN ''G'']"
  by (simp add: shortest_path_def sample_graph_def contains_def get_neighbors_def)

text \<open>
  C1, as stated, fails: the sample graph has seven nodes and seven edges, and the
  edges A-B, B-E, E-F, C-F, A-C close a cycle. \<open>dfs_cycle\<close> goes A, B, D, E, F, C and
  finds at C the visited neighbour A, which is not the parent F; so \<open>is_cyclic\<close> is
  not \<open>False\<close> on the sample graph.
\<close>

theorem is_cyclic_sample_not_false:
  "build_sample_graph = Inr sample_graph \<and> is_cyclic sample_graph \<noteq> False"
  using build_sample is_cyclic_sample by simp

text \<open>
  C1 (amended): on the sample graph built from the edges A-B, A-C, B-D, B-E, C-F, E-F,
  F-G, \<open>is_cyclic\<close> returns \<open>True\<close>; after the further call \<open>add_edge('D', 'G')\<close> it
  returns \<open>True\<close> as well.
\<close>

theorem is_cyclic_sample_graph:
  "build_sample_graph = Inr sample_graph \<and> is_cyclic sample_graph = True \<and>
   add_edge sample_graph (StrN ''D'') (StrN ''G'') True = Inr sample_graph_DG \<and>
   is_cyclic sample_graph_DG = True"
  using build_sample is_cyclic_sample sample_add_DG is_cyclic_sample_DG by simp

theorem is_cyclic_sample_graph_witness:
  "is_cyclic sample_graph \<and> is_cyclic sample_graph_DG"
  using is_cyclic_sample_graph by simp

text \<open>
  C2: on the sample graph, \<open>shortest_path('A', 'G')\<close> returns a path of exactly four
  nodes, the path A, C, F, G: G is first enqueued from F, F first from C (C is dequeued
  before E), and C from A.
\<close>

theorem shortest_path_sample_A_G:
  "build_sample_graph = Inr sample_graph \<and>
   shortest_path sample_graph (StrN ''A'') (StrN ''G'')
     = [StrN ''A'', StrN ''C'', StrN ''F'', StrN ''G''] \<and>
   length (shortest_path sample_graph (StrN ''A'') (StrN ''G'')) = 4"
  using build_sample shortest_path_sample by simp

theorem shortest_path_sample_A_G_witness:
  "length (shortest_path sample_graph (StrN ''A'') (StrN ''G'')) = 4"
  using shortest_path_sample_A_G by simp

section \<open>Breadth-first search\<close>

text \<open>
  C3: for every graph and every node that is not a key of the adjacency mapping, the
  neighbour lookup yields the empty list and \<open>bfs\<close> returns exactly \<open>[s]\<close>. The model
  of \<open>bfs\<close> is a total function with no error result, so nothing is raised.
\<close>

theorem bfs_absent_start:
  "\<not> contains g s \<Longrightarrow> get_neighbors g s = [] \<and> bfs g s = [s]"
  by (simp add: bfs_def contains_def get_neighbors_def)

theorem bfs_absent_start_witness:
  "\<not> contains sample_graph (StrN ''Z'') \<and> get_neighbors sample_graph (StrN ''Z'') = [] \<and>
   bfs sample_graph (StrN ''Z'') = [StrN ''Z'']"
proof -
  have h: "\<not> contains sample_graph (StrN ''Z'')"
    by (simp add: contains_def sample_graph_def)
  from bfs_absent_start[OF h] h show ?thesis by simp
qed

text \<open>The output only grows: whatever is in \<open>order\<close> is in the result of the loop.\<close>

lemma bfs_loop_order: "set order \<subseteq> set (bfs_loop g visited queue order)"
proof (induction g visited queue order rule: bfs_loop.induct)
  case (1 g visited order)
  then show ?case by simp
next
  case (2 g visited current queue order)
  obtain v' q' where e: "enqueue_unvisited (get_neighbors g current) visited queue = (v', q')"
    by (cases "enqueue_unvisited (get_neighbors g current) visited queue")
  from 2[OF e[symmetric]] e show ?case by simp
qed

text \<open>
  C10: \<open>has_path(x, x)\<close> is true for every graph and every node \<open>x\<close>, a key of the
  adjacency mapping or not: the first iteration of \<open>bfs\<close> appends the start node to
  the output.
\<close>

theorem has_path_refl: "has_path g x x"
proof -
  obtain v' q' where e: "enqueue_unvisited (get_neighbors g x) {x} [] = (v', q')"
    by (cases "enqueue_unvisited (get_neighbors g x) {x} []")
  then have "bfs g x = bfs_loop g v' q' [x]" by (simp add: bfs_def)
  moreover have "set [x] \<subseteq> set (bfs_loop g v' q' [x])" by (rule bfs_loop_order)
  ultimately show ?thesis by (simp add: has_path_def)
qed

theorem has_path_refl_witness:
  "\<not> contains sample_graph (StrN ''Z'') \<and> has_path sample_graph (StrN ''Z'') (StrN ''Z'') \<and>
   contains sample_graph (StrN ''A'') \<and> has_path sample_graph (StrN ''A'') (StrN ''A'')"
  using has_path_refl[of sample_graph "StrN ''Z''"] has_path_refl[of sample_graph "StrN ''A''"]
  by (simp add: contains_def sample_graph_def)

section \<open>Mutation: \<open>add_edge\<close>\<close>

lemma contains_add_node: "contains (add_node g n) m \<longleftrightarrow> contains g m \<or> m = n"
  by (auto simp: add_node_def contains_def update_conv')

lemma add_edge_result:
  assumes "isinstance_T a" "isinstance_T b" "a \<noteq> b"
  shows "\<exists>g' ns ms. add_edge g a b bi = Inr g' \<and>
           map_of (adj_list g') a = Some ns \<and> b \<in> set ns \<and>
           map_of (adj_list g') b = Some ms \<and> (bi \<longrightarrow> a \<in> set ms)"
  using assms
  by (auto simp: mutation_defs update_conv' Let_def split: option.splits sum.splits)

text \<open>
  C6: for every node \<open>a\<close> of an allowed type, \<open>add_edge(a, a)\<close> fails with the
  self-loop error, for either value of \<open>bidirectional\<close>. The source raises
  \<open>ValueError("Self loops are not allowed")\<close>, which the specification calls
  \<open>SelfLoopError\<close>; the result of the call itself is the error, and no graph is
  returned, so it surfaces at the call and nothing was mutated.
\<close>

theorem add_edge_self_loop:
  "isinstance_T a \<Longrightarrow> add_edge g a a bidirectional = Inl (ValueError ''Self loops are not allowed'')"
  by (simp add: add_edge_def)

theorem add_edge_self_loop_witness:
  "isinstance_T (StrN ''A'') \<and>
   add_edge sample_graph (StrN ''A'') (StrN ''A'') True
     = Inl (ValueError ''Self loops are not allowed'') \<and>
   isinstance_T (IntN 7) \<and>
   add_edge init_graph (IntN 7) (IntN 7) False
     = Inl (ValueError ''Self loops are not allowed'')"
  using add_edge_self_loop[of "StrN ''A''" sample_graph True]
    add_edge_self_loop[of "IntN 7" init_graph False]
  by simp

text \<open>
  C4: for every graph and every pair of distinct nodes \<open>a\<close>, \<open>b\<close> of allowed types,
  \<open>add_edge(a, b)\<close> with the default \<open>bidirectional=True\<close> succeeds, and afterwards
  \<open>b\<close> is in \<open>get_neighbors(a)\<close> and \<open>a\<close> is in \<open>get_neighbors(b)\<close>.
\<close>

theorem add_edge_bidirectional_neighbors:
  assumes "isinstance_T a" "isinstance_T b" "a \<noteq> b"
  shows "\<exists>g'. add_edge g a b True = Inr g' \<and>
           b \<in> set (get_neighbors g' a) \<and> a \<in> set (get_neighbors g' b)"
proof -
  from add_edge_result[OF assms, of g True]
  obtain g' ns ms where "add_edge g a b True = Inr g'"
      "map_of (adj_list g') a = Some ns" "b \<in> set ns"
      "map_of (adj_list g') b = Some ms" "a \<in> set ms"
    by auto
  then show ?thesis by (auto simp: get_neighbors_def)
qed

theorem add_edge_bidirectional_neighbors_witness:
  "isinstance_T (StrN ''D'') \<and> isinstance_T (StrN ''G'') \<and> StrN ''D'' \<noteq> StrN ''G'' \<and>
   (\<exists>g'. add_edge sample_graph (StrN ''D'') (StrN ''G'') True = Inr g' \<and>
      StrN ''G'' \<in> set (get_neighbors g' (StrN ''D'')) \<and>
      StrN ''D'' \<in> set (get_neighbors g' (StrN ''G'')))"
  using add_edge_bidirectional_neighbors[of "StrN ''D''" "StrN ''G''" sample_graph]
  by simp

lemma add_edge_again:
  assumes "isinstance_T a" "isinstance_T b" "a \<noteq> b"
    and "map_of (adj_list g) a = Some ns" "b \<in> set ns"
    and "map_of (adj_list g) b = Some ms" "bi \<longrightarrow> a \<in> set ms"
  shows "add_edge g a b bi = Inr g"
  using assms by (simp add: mutation_defs)

text \<open>
  C7: \<open>add_edge\<close> is idempotent. For every graph and every pair of distinct nodes of
  allowed types, the first call succeeds with a graph \<open>g1\<close>, and the same call on
  \<open>g1\<close> returns \<open>g1\<close> again: the whole adjacency structure, so every neighbour list,
  is as after one call. This holds for either value of \<open>bidirectional\<close>.
\<close>

theorem add_edge_idempotent:
  assumes "isinstance_T a" "isinstance_T b" "a \<noteq> b"
  shows "\<exists>g1. add_edge g a b bidirectional = Inr g1 \<and> add_edge g1 a b bidirectional = Inr g1"
proof -
  from add_edge_result[OF assms, of g bidirectional]
  obtain g1 ns ms where r: "add_edge g a b bidirectional = Inr g1"
      "map_of (adj_list g1) a = Some ns" "b \<in> set ns"
      "map_of (adj_list g1) b = Some ms" "bidirectional \<longrightarrow> a \<in> set ms"
    by blast
  from add_edge_again[OF assms r(2-5)] r(1) show ?thesis by simp
qed

theorem add_edge_idempotent_witness:
  "isinstance_T (StrN ''D'') \<and> isinstance_T (StrN ''G'') \<and> StrN ''D'' \<noteq> StrN ''G'' \<and>
   (\<exists>g1. add_edge sample_graph (StrN ''D'') (StrN ''G'') True = Inr g1 \<and>
      add_edge g1 (StrN ''D'') (StrN ''G'') True = Inr g1)"
  using add_edge_idempotent[of "StrN ''D''" "StrN ''G''" sample_graph True]
  by simp

section \<open>Invariants under mutation\<close>

lemma set_update_subset: "set (AList.update k v al) \<subseteq> insert (k, v) (set al)"
  by (induction al) auto

lemma contains_iff: "contains g n \<longleftrightarrow> n \<in> fst ` set (adj_list g)"
  by (simp add: contains_def map_of_eq_None_iff)

lemma no_dangling_add_node: "no_dangling g \<Longrightarrow> no_dangling (add_node g n)"
  unfolding no_dangling_def
proof (intro ballI)
  fix e m
  assume nd: "\<forall>e\<in>set (adj_list g). \<forall>n\<in>set (snd e). contains g n"
    and e: "e \<in> set (adj_list (add_node g n))" and m: "m \<in> set (snd e)"
  from e set_update_subset[of n "[]" "adj_list g"]
  have "e = (n, []) \<or> e \<in> set (adj_list g)"
    by (auto simp: add_node_def split: if_splits)
  with m nd have "contains g m" by auto
  then show "contains (add_node g n) m" by (simp add: contains_add_node)
qed

lemma contains_append_neighbor:
  "append_neighbor g k v = Inr g' \<Longrightarrow> contains g' m \<longleftrightarrow> contains g m"
  by (auto simp: append_neighbor_def getitem_def contains_def update_conv'
      split: option.splits if_splits)

lemma no_dangling_append_neighbor:
  assumes "no_dangling g" "contains g v" "append_neighbor g k v = Inr g'"
  shows "no_dangling g'"
  unfolding no_dangling_def
proof (intro ballI)
  fix e m
  assume e: "e \<in> set (adj_list g')" and m: "m \<in> set (snd e)"
  from assms(3) obtain ns where ns: "map_of (adj_list g) k = Some ns"
      and g': "adj_list g' = AList.update k (ns @ [v]) (adj_list g)"
    by (auto simp: append_neighbor_def getitem_def split: option.splits)
  from ns have kns: "(k, ns) \<in> set (adj_list g)" by (rule map_of_SomeD)
  from e g' set_update_subset[of k "ns @ [v]" "adj_list g"]
  have "e = (k, ns @ [v]) \<or> e \<in> set (adj_list g)" by auto
  then have "contains g m"
  proof
    assume "e = (k, ns @ [v])"
    with m have "m \<in> set ns \<or> m = v" by auto
    with kns assms(1,2) show ?thesis unfolding no_dangling_def by force
  next
    assume "e \<in> set (adj_list g)"
    with m assms(1) show ?thesis unfolding no_dangling_def by blast
  qed
  with assms(3) show "contains g' m" by (simp add: contains_append_neighbor)
qed

lemma no_dangling_add_edge:
  assumes "no_dangling g" "add_edge g a b bi = Inr g'"
  shows "no_dangling g'"
proof -
  let ?g1 = "add_node (add_node g a) b"
  have nd1: "no_dangling ?g1" using assms(1) by (simp add: no_dangling_add_node)
  have ca: "contains ?g1 a" and cb: "contains ?g1 b" by (simp_all add: contains_add_node)
  from assms(2) obtain ns where ns: "getitem ?g1 a = Inr ns"
    by (auto simp: add_edge_def Let_def split: if_splits sum.splits)
  from assms(2) ns obtain g2 where
    g2: "(if b \<notin> set ns then append_neighbor ?g1 a b else Inr ?g1) = Inr g2"
    and fin: "(if bi then (case getitem g2 b of Inl e \<Rightarrow> Inl e
                 | Inr ms \<Rightarrow> if a \<notin> set ms then append_neighbor g2 b a else Inr g2)
               else Inr g2) = Inr g'"
    by (auto simp: add_edge_def Let_def split: if_splits sum.splits)
  have nd2: "no_dangling g2" and ca2: "contains g2 a"
    using g2 nd1 cb ca
    by (auto split: if_splits simp: contains_append_neighbor
        intro: no_dangling_append_neighbor)
  from fin nd2 ca2 show ?thesis
    by (auto split: if_splits sum.splits intro: no_dangling_append_neighbor)
qed

lemma map_of_remove_from_entry:
  "map_of (map (remove_from_entry x) al) y
     = map_option (\<lambda>ns. if x \<in> set ns then remove1 x ns else ns) (map_of al y)"
  by (induction al) (auto simp: remove_from_entry_def)

lemma contains_remove_node:
  "contains (remove_node g x) y \<longleftrightarrow> contains g y \<and> y \<noteq> x"
  by (auto simp: remove_node_def contains_def delete_conv' map_of_remove_from_entry)

lemma get_neighbors_remove_node:
  "contains g x \<Longrightarrow> get_neighbors (remove_node g x) y
     = (if y = x then [] else remove1 x (get_neighbors g y))"
  by (auto simp: remove_node_def get_neighbors_def delete_conv' map_of_remove_from_entry
      remove1_idem split: option.splits)

lemma distinct_get_neighbors: "no_duplicates g \<Longrightarrow> distinct (get_neighbors g y)"
proof (cases "map_of (adj_list g) y")
  case None
  then show ?thesis by (simp add: get_neighbors_def)
next
  case (Some ns)
  assume nd: "no_duplicates g"
  from Some have "(y, ns) \<in> set (adj_list g)" by (rule map_of_SomeD)
  with nd have "distinct ns" unfolding no_duplicates_def by force
  with Some show ?thesis by (simp add: get_neighbors_def)
qed

lemma fst_remove_from_entry: "fst (remove_from_entry x e) = fst e"
  by (simp add: remove_from_entry_def)

lemma entry_of_remove_node:
  assumes "e \<in> set (adj_list (remove_node g x))" "contains g x"
  shows "\<exists>e' \<in> set (adj_list g). fst e' \<noteq> x \<and> e = remove_from_entry x e'"
proof -
  from assms have "e \<in> set (AList.delete x (map (remove_from_entry x) (adj_list g)))"
    by (simp add: remove_node_def)
  then have "e \<in> remove_from_entry x ` set (adj_list g)" and "fst e \<noteq> x"
    by (auto simp: AList.delete_eq)
  then obtain e' where "e' \<in> set (adj_list g)" "e = remove_from_entry x e'" "fst e \<noteq> x"
    by blast
  then show ?thesis by (auto simp: fst_remove_from_entry intro!: bexI[of _ e'])
qed

lemma no_dangling_remove_node:
  assumes "no_dangling g" "no_duplicates g"
  shows "no_dangling (remove_node g x)"
proof (cases "contains g x")
  case False
  with assms(1) show ?thesis by (simp add: remove_node_def)
next
  case True
  show ?thesis unfolding no_dangling_def
  proof (intro ballI)
    fix e m
    assume e: "e \<in> set (adj_list (remove_node g x))" and m: "m \<in> set (snd e)"
    from entry_of_remove_node[OF e True] obtain e' where
      e': "e' \<in> set (adj_list g)" "e = remove_from_entry x e'" by blast
    from e' assms(2) have d: "distinct (snd e')" by (simp add: no_duplicates_def)
    from m e'(2) d have "m \<in> set (snd e') \<and> m \<noteq> x"
      by (auto simp: remove_from_entry_def split: if_splits)
    with e'(1) assms(1) have "contains g m \<and> m \<noteq> x" unfolding no_dangling_def by blast
    then show "contains (remove_node g x) m" by (simp add: contains_remove_node)
  qed
qed

lemma no_duplicates_add_node: "no_duplicates g \<Longrightarrow> no_duplicates (add_node g n)"
  unfolding no_duplicates_def
proof (intro ballI)
  fix e
  assume nd: "\<forall>e\<in>set (adj_list g). distinct (snd e)"
    and e: "e \<in> set (adj_list (add_node g n))"
  from e set_update_subset[of n "[]" "adj_list g"]
  have "e = (n, []) \<or> e \<in> set (adj_list g)"
    by (auto simp: add_node_def split: if_splits)
  with nd show "distinct (snd e)" by auto
qed

lemma no_duplicates_append_neighbor:
  assumes "no_duplicates g" "getitem g k = Inr ns" "v \<notin> set ns"
    "append_neighbor g k v = Inr g'"
  shows "no_duplicates g'"
  unfolding no_duplicates_def
proof (intro ballI)
  fix e
  assume e: "e \<in> set (adj_list g')"
  from assms(2) have ns: "map_of (adj_list g) k = Some ns"
    by (auto simp: getitem_def split: option.splits)
  then have kns: "(k, ns) \<in> set (adj_list g)" by (rule map_of_SomeD)
  from assms(2,4) have g': "adj_list g' = AList.update k (ns @ [v]) (adj_list g)"
    by (auto simp: append_neighbor_def)
  from e g' set_update_subset[of k "ns @ [v]" "adj_list g"]
  have "e = (k, ns @ [v]) \<or> e \<in> set (adj_list g)" by auto
  then show "distinct (snd e)"
  proof
    assume "e = (k, ns @ [v])"
    moreover from kns assms(1) have "distinct ns" unfolding no_duplicates_def by force
    ultimately show ?thesis using assms(3) by simp
  next
    assume "e \<in> set (adj_list g)"
    with assms(1) show ?thesis unfolding no_duplicates_def by blast
  qed
qed

lemma no_duplicates_add_edge:
  assumes "no_duplicates g" "add_edge g a b bi = Inr g'"
  shows "no_duplicates g'"
proof -
  let ?g1 = "add_node (add_node g a) b"
  have nd1: "no_duplicates ?g1" using assms(1) by (simp add: no_duplicates_add_node)
  from assms(2) obtain ns where ns: "getitem ?g1 a = Inr ns"
    by (auto simp: add_edge_def Let_def split: if_splits sum.splits)
  from assms(2) ns obtain g2 where
    g2: "(if b \<notin> set ns then append_neighbor ?g1 a b else Inr ?g1) = Inr g2"
    and fin: "(if bi then (case getitem g2 b of Inl e \<Rightarrow> Inl e
                 | Inr ms \<Rightarrow> if a \<notin> set ms then append_neighbor g2 b a else Inr g2)
               else Inr g2) = Inr g'"
    by (auto simp: add_edge_def Let_def split: if_splits sum.splits)
  have nd2: "no_duplicates g2"
    using g2 nd1 ns by (auto split: if_splits intro: no_duplicates_append_neighbor)
  from fin nd2 show ?thesis
    by (auto split: if_splits sum.splits intro: no_duplicates_append_neighbor)
qed

lemma no_duplicates_remove_node: "no_duplicates g \<Longrightarrow> no_duplicates (remove_node g x)"
proof (cases "contains g x")
  case False
  assume "no_duplicates g"
  with False show ?thesis by (simp add: remove_node_def)
next
  case True
  assume nd: "no_duplicates g"
  show ?thesis unfolding no_duplicates_def
  proof (intro ballI)
    fix e
    assume e: "e \<in> set (adj_list (remove_node g x))"
    from entry_of_remove_node[OF e True] obtain e' where
      e': "e' \<in> set (adj_list g)" "e = remove_from_entry x e'" by blast
    from e'(1) nd have "distinct (snd e')" by (simp add: no_duplicates_def)
    with e'(2) show "distinct (snd e)" by (simp add: remove_from_entry_def)
  qed
qed

lemma reachable_invariants: "reachable g \<Longrightarrow> no_duplicates g \<and> no_dangling g"
proof (induction rule: reachable.induct)
  case reachable_init
  show ?case by (simp add: no_duplicates_def no_dangling_def init_graph_def)
next
  case (reachable_add_node g n)
  then show ?case by (simp add: no_duplicates_add_node no_dangling_add_node)
next
  case (reachable_add_edge g a b bidirectional g')
  then show ?case using no_duplicates_add_edge no_dangling_add_edge by blast
next
  case (reachable_remove_node g n)
  then show ?case by (simp add: no_duplicates_remove_node no_dangling_remove_node)
qed

lemma sample_invariants: "no_duplicates sample_graph \<and> no_dangling sample_graph"
  by (simp add: no_duplicates_def no_dangling_def sample_graph_def contains_def)

text \<open>
  C5: every mutation keeps the adjacency structure free of dangling neighbours:
  \<open>add_node\<close>, \<open>add_edge\<close> with either value of \<open>bidirectional\<close> (where it raises,
  nothing was mutated), and \<open>remove_node\<close>. \<open>remove_node\<close> deletes one occurrence
  of the node from each list, so for it the lists must be free of duplicates, as the
  data model says and as every graph built by the methods is (\<open>reachable_invariants\<close>).
\<close>

theorem mutations_preserve_no_dangling:
  assumes "no_dangling g"
  shows "no_dangling (add_node g n) \<and>
         (\<forall>g'. add_edge g a b bidirectional = Inr g' \<longrightarrow> no_dangling g') \<and>
         (no_duplicates g \<longrightarrow> no_dangling (remove_node g x))"
  using assms no_dangling_add_node no_dangling_add_edge no_dangling_remove_node by blast

theorem mutations_preserve_no_dangling_witness:
  "no_dangling sample_graph \<and> no_duplicates sample_graph \<and>
   no_dangling (add_node sample_graph (StrN ''Z'')) \<and>
   add_edge sample_graph (StrN ''D'') (StrN ''G'') True = Inr sample_graph_DG \<and>
   no_dangling sample_graph_DG \<and>
   no_dangling (remove_node sample_graph (StrN ''F''))"
  using mutations_preserve_no_dangling[of sample_graph "StrN ''Z''" "StrN ''D''" "StrN ''G''"
      True "StrN ''F''"] sample_invariants sample_add_DG
  by simp

section \<open>Mutation: \<open>remove_node\<close>\<close>

lemma absent_not_neighbor:
  "no_dangling g \<Longrightarrow> \<not> contains g x \<Longrightarrow> x \<notin> set (get_neighbors g y)"
proof (cases "map_of (adj_list g) y")
  case None
  then show ?thesis by (simp add: get_neighbors_def)
next
  case (Some ns)
  assume nd: "no_dangling g" and nx: "\<not> contains g x"
  from Some have "(y, ns) \<in> set (adj_list g)" by (rule map_of_SomeD)
  with nd have "\<forall>n \<in> set ns. contains g n" unfolding no_dangling_def by force
  with nx have "x \<notin> set ns" by blast
  with Some show ?thesis by (simp add: get_neighbors_def)
qed

text \<open>
  C8: for every graph of the data model (no duplicates in a neighbour list, no
  dangling neighbours) and every node \<open>x\<close>: after \<open>remove_node(x)\<close>, \<open>x\<close> is not a
  key, and \<open>get_neighbors(y)\<close> does not contain \<open>x\<close> for any \<open>y\<close>; if \<open>x\<close> was not a
  key, the graph is unchanged.
\<close>

theorem remove_node_purges:
  assumes "no_duplicates g" "no_dangling g"
  shows "\<not> contains (remove_node g x) x \<and>
         (\<forall>y. x \<notin> set (get_neighbors (remove_node g x) y)) \<and>
         (\<not> contains g x \<longrightarrow> remove_node g x = g)"
proof (cases "contains g x")
  case True
  then show ?thesis
    using distinct_get_neighbors[OF assms(1)]
    by (simp add: contains_remove_node get_neighbors_remove_node)
next
  case False
  then have "remove_node g x = g" by (simp add: remove_node_def)
  with False absent_not_neighbor[OF assms(2) False] show ?thesis by simp
qed

theorem remove_node_purges_witness:
  "no_duplicates sample_graph \<and> no_dangling sample_graph \<and>
   contains sample_graph (StrN ''F'') \<and>
   \<not> contains (remove_node sample_graph (StrN ''F'')) (StrN ''F'') \<and>
   StrN ''F'' \<notin> set (get_neighbors (remove_node sample_graph (StrN ''F'')) (StrN ''C'')) \<and>
   StrN ''F'' \<notin> set (get_neighbors (remove_node sample_graph (StrN ''F'')) (StrN ''G'')) \<and>
   \<not> contains sample_graph (StrN ''Z'') \<and>
   remove_node sample_graph (StrN ''Z'') = sample_graph"
proof -
  have i: "no_duplicates sample_graph" "no_dangling sample_graph"
    using sample_invariants by simp_all
  have c: "contains sample_graph (StrN ''F'')" "\<not> contains sample_graph (StrN ''Z'')"
    by (simp_all add: contains_def sample_graph_def)
  from remove_node_purges[OF i, of "StrN ''F''"] remove_node_purges[OF i, of "StrN ''Z''"] i c
  show ?thesis by simp
qed

section \<open>List objects: agreement with the value model\<close>

lemmas heap_defs = ref_add_edge_def ref_add_node_def new_list_def list_items_def list_append_def
  ref_get_neighbors_def stored_graph_def

lemma map_of_map_snd:
  "map_of (map (\<lambda>e. (fst e, f (snd e))) al) n = map_option f (map_of al n)"
  by (induction al) auto

lemma map_of_stored:
  "map_of (adj_list (stored_graph h)) n = map_option (list_items h) (map_of (adj_refs h) n)"
  by (simp add: stored_graph_def map_of_map_snd)

lemma get_neighbors_stored:
  "get_neighbors (stored_graph h) n
     = (case map_of (adj_refs h) n of None \<Rightarrow> [] | Some r \<Rightarrow> list_items h r)"
  by (simp add: get_neighbors_def map_of_stored split: option.splits)

lemma list_items_new_list:
  "r < length (list_objects h) \<Longrightarrow> list_items (snd (new_list h)) r = list_items h r"
  by (simp add: new_list_def list_items_def nth_append)

lemma stored_new_list:
  assumes "refs_allocated h"
  shows "stored_graph (snd (new_list h)) = stored_graph h"
proof -
  have "\<forall>e \<in> set (adj_refs h). list_items (snd (new_list h)) (snd e) = list_items h (snd e)"
    using assms by (simp add: refs_allocated_def list_items_new_list)
  then show ?thesis by (simp add: stored_graph_def new_list_def)
qed

lemma list_items_list_append:
  "list_items (list_append h r v) r'
     = (if r' = r \<and> r < length (list_objects h) then list_items h r @ [v] else list_items h r')"
  by (simp add: list_append_def list_items_def)

lemma ref_get_neighbors_eq:
  "ref_get_neighbors h n
     = (case map_of (adj_refs h) n of None \<Rightarrow> length (list_objects h) | Some r \<Rightarrow> r, snd (new_list h))"
  by (simp add: ref_get_neighbors_def new_list_def split: option.splits)

text \<open>
  As long as only the methods of the class touch the list objects, the heap stores
  what the value model computes: \<open>add_node\<close> and \<open>add_edge\<close> on the heap commute
  with \<open>stored_graph\<close>, and keep every key on a list object of its own.
\<close>

lemma update_absent: "map_of al k = None \<Longrightarrow> AList.update k v al = al @ [(k, v)]"
  by (induction al) (auto split: if_splits)

lemma stored_ref_add_node:
  assumes "heap_ok h"
  shows "stored_graph (ref_add_node h n) = add_node (stored_graph h) n"
proof (cases "map_of (adj_refs h) n")
  case None
  have items: "\<forall>e \<in> set (adj_refs h).
      list_items (h\<lparr>list_objects := list_objects h @ [[]]\<rparr>) (snd e) = list_items h (snd e)"
    using assms by (auto simp: heap_ok_def refs_allocated_def list_items_def nth_append)
  have "map_of (adj_list (stored_graph h)) n = None" using None by (simp add: map_of_stored)
  then have "add_node (stored_graph h) n
      = \<lparr>adj_list = adj_list (stored_graph h) @ [(n, [])]\<rparr>"
    by (simp add: add_node_def contains_def update_absent)
  moreover have "stored_graph (ref_add_node h n)
      = \<lparr>adj_list = adj_list (stored_graph h) @ [(n, [])]\<rparr>"
  proof -
    have "ref_add_node h n
        = \<lparr>adj_refs = adj_refs h @ [(n, length (list_objects h))],
           list_objects = list_objects h @ [[]]\<rparr>"
      using None by (simp add: ref_add_node_def new_list_def update_absent)
    moreover have "list_items (h\<lparr>list_objects := list_objects h @ [[]]\<rparr>) = list_items
        \<lparr>adj_refs = adj_refs h @ [(n, length (list_objects h))], list_objects = list_objects h @ [[]]\<rparr>"
      by (simp add: list_items_def fun_eq_iff)
    ultimately show ?thesis using items
      by (simp add: stored_graph_def) (simp add: list_items_def)
  qed
  ultimately show ?thesis by simp
next
  case (Some r)
  then show ?thesis
    by (simp add: ref_add_node_def add_node_def contains_def map_of_stored)
qed

lemma heap_ok_ref_add_node: "heap_ok h \<Longrightarrow> heap_ok (ref_add_node h n)"
  by (auto simp: heap_ok_def refs_allocated_def ref_add_node_def new_list_def update_absent
      less_Suc_eq)

lemma stored_list_append_aux:
  assumes "distinct (map snd al)" "map_of al k = Some r" "r < length (list_objects h)"
  shows "map (\<lambda>e. (fst e, list_items (list_append h r v) (snd e))) al
       = AList.update k (list_items h r @ [v]) (map (\<lambda>e. (fst e, list_items h (snd e))) al)"
  using assms
proof (induction al)
  case Nil
  then show ?case by simp
next
  case (Cons e al)
  show ?case
  proof (cases "fst e = k")
    case True
    with Cons.prems have "snd e = r" by (cases e) simp
    moreover from Cons.prems(1) have "\<forall>e' \<in> set al. snd e' \<noteq> snd e"
      by (force simp: image_iff)
    ultimately show ?thesis using True Cons.prems(3)
      by (simp add: list_items_list_append)
  next
    case False
    with Cons.prems have m: "map_of al k = Some r" by (cases e) (simp split: if_splits)
    then have "(k, r) \<in> set al" by (rule map_of_SomeD)
    with Cons.prems(1) have "snd e \<noteq> r" by (force simp: image_iff)
    with False Cons.IH[OF _ m Cons.prems(3)] Cons.prems(1) show ?thesis
      by (simp add: list_items_list_append)
  qed
qed


lemma heap_ok_list_append: "heap_ok h \<Longrightarrow> heap_ok (list_append h r v)"
  by (simp add: heap_ok_def refs_allocated_def list_append_def)

lemma stored_list_append:
  assumes "heap_ok h" "map_of (adj_refs h) k = Some r"
  shows "append_neighbor (stored_graph h) k v = Inr (stored_graph (list_append h r v))"
proof -
  from assms(2) have "(k, r) \<in> set (adj_refs h)" by (rule map_of_SomeD)
  with assms(1) have r: "r < length (list_objects h)" by (force simp: heap_ok_def refs_allocated_def)
  from assms(1) have d: "distinct (map snd (adj_refs h))" by (simp add: heap_ok_def)
  have adj: "adj_refs (list_append h r v) = adj_refs h" by (simp add: list_append_def)
  have "getitem (stored_graph h) k = Inr (list_items h r)"
    using assms(2) by (simp add: getitem_def map_of_stored)
  moreover have "adj_list (stored_graph (list_append h r v))
      = AList.update k (list_items h r @ [v]) (adj_list (stored_graph h))"
    using stored_list_append_aux[OF d assms(2) r, of v] by (simp add: stored_graph_def adj)
  ultimately show ?thesis by (simp add: append_neighbor_def stored_graph_def)
qed

lemma ref_add_edge_refines:
  assumes "heap_ok h"
  shows "map_sum id stored_graph (ref_add_edge h a b bi) = add_edge (stored_graph h) a b bi"
proof (cases "isinstance_T a \<and> isinstance_T b \<and> a \<noteq> b")
  case False
  then show ?thesis by (auto simp: ref_add_edge_def add_edge_def)
next
  case True
  let ?h1 = "ref_add_node (ref_add_node h a) b"
  let ?g1 = "add_node (add_node (stored_graph h) a) b"
  have ok1: "heap_ok ?h1" using assms by (simp add: heap_ok_ref_add_node)
  have g1: "stored_graph ?h1 = ?g1"
    using assms by (simp add: stored_ref_add_node heap_ok_ref_add_node)
  have "contains ?g1 a" by (simp add: contains_add_node)
  then obtain rf where rf: "map_of (adj_refs ?h1) a = Some rf"
    unfolding g1[symmetric] by (auto simp: contains_def map_of_stored)
  have geta: "getitem ?g1 a = Inr (list_items ?h1 rf)"
    unfolding g1[symmetric] using rf by (simp add: getitem_def map_of_stored)
  define h2 where "h2 = (if b \<notin> set (list_items ?h1 rf) then list_append ?h1 rf b else ?h1)"
  have ok2: "heap_ok h2" using ok1 by (simp add: h2_def heap_ok_list_append)
  have step1: "(if b \<notin> set (list_items ?h1 rf) then append_neighbor ?g1 a b else Inr ?g1)
      = Inr (stored_graph h2)"
    using stored_list_append[OF ok1 rf, of b] by (simp add: h2_def g1)
  have "contains ?g1 b" by (simp add: contains_add_node)
  then have "contains (stored_graph h2) b"
    using step1 by (auto simp: contains_append_neighbor split: if_splits)
  then obtain rt where rt: "map_of (adj_refs h2) b = Some rt"
    by (auto simp: contains_def map_of_stored)
  have getb: "getitem (stored_graph h2) b = Inr (list_items h2 rt)"
    using rt by (simp add: getitem_def map_of_stored)
  have lhs: "ref_add_edge h a b bi
      = Inr (if bi then (if a \<notin> set (list_items h2 rt) then list_append h2 rt a else h2)
             else h2)"
    using True rf rt by (simp add: ref_add_edge_def Let_def h2_def)
  have rhs: "add_edge (stored_graph h) a b bi
      = (if bi then (if a \<notin> set (list_items h2 rt)
                     then append_neighbor (stored_graph h2) b a else Inr (stored_graph h2))
         else Inr (stored_graph h2))"
    using True geta step1 getb by (simp add: add_edge_def Let_def)
  show ?thesis
    unfolding lhs rhs using stored_list_append[OF ok2 rt, of a] by simp
qed

lemma heap_ok_ref_add_edge:
  assumes "heap_ok h" "ref_add_edge h a b bi = Inr h'"
  shows "heap_ok h'"
  using assms
  by (auto simp: ref_add_edge_def Let_def heap_ok_ref_add_node heap_ok_list_append
      split: if_splits option.splits)

section \<open>What \<open>get_neighbors\<close> hands out\<close>

lemma heap_AB_built: "ref_add_edge init_heap (StrN ''A'') (StrN ''B'') True = Inr heap_AB"
  by (simp add: heap_defs init_heap_def heap_AB_def)

lemma heap_AB_get: "ref_get_neighbors heap_AB (StrN ''A'') = (0, heap_AB')"
  by (simp add: heap_defs heap_AB_def heap_AB'_def)

text \<open>
  C9, as stated, fails: \<open>get_neighbors\<close> returns the list object the dictionary
  holds. After \<open>g = Graph(); g.add_edge('A', 'B'); l = g.get_neighbors('A')\<close> the
  caller's \<open>l.append('C')\<close> changes the neighbour list the graph stores for A from
  \<open>['B']\<close> to \<open>['B', 'C']\<close>.
\<close>

theorem get_neighbors_alias_mutates_graph:
  "ref_add_edge init_heap (StrN ''A'') (StrN ''B'') True = Inr heap_AB \<and>
   ref_get_neighbors heap_AB (StrN ''A'') = (0, heap_AB') \<and>
   get_neighbors (stored_graph heap_AB') (StrN ''A'') = [StrN ''B''] \<and>
   get_neighbors (stored_graph (list_append heap_AB' 0 (StrN ''C''))) (StrN ''A'')
     = [StrN ''B'', StrN ''C'']"
  by (simp add: heap_defs init_heap_def heap_AB_def heap_AB'_def get_neighbors_def)

text \<open>
  C9 (amended): \<open>get_neighbors\<close> makes no copy. The call leaves the stored adjacency
  structure as it is, and the list it returns has the node's neighbours as elements.
  For a node that is a key, the result is the list object stored for that node, so
  appending to it appends to the neighbour list the graph stores for the node. For a
  node that is not a key, the result is a new empty list, and appending to it leaves
  the stored adjacency structure unchanged.
\<close>

theorem get_neighbors_returns_stored_list:
  assumes "refs_allocated h"
  shows "stored_graph (snd (ref_get_neighbors h n)) = stored_graph h \<and>
         list_items (snd (ref_get_neighbors h n)) (fst (ref_get_neighbors h n))
           = get_neighbors (stored_graph h) n \<and>
         (\<forall>r. map_of (adj_refs h) n = Some r \<longrightarrow>
            fst (ref_get_neighbors h n) = r \<and>
            get_neighbors (stored_graph (list_append (snd (ref_get_neighbors h n)) r v)) n
              = get_neighbors (stored_graph h) n @ [v]) \<and>
         (map_of (adj_refs h) n = None \<longrightarrow>
            stored_graph (list_append (snd (ref_get_neighbors h n))
                                      (fst (ref_get_neighbors h n)) v)
              = stored_graph h)"
proof (cases "map_of (adj_refs h) n")
  case None
  let ?h' = "snd (new_list h)"
  have fresh: "\<forall>e \<in> set (adj_refs h). snd e \<noteq> length (list_objects h)"
    using assms by (auto simp: refs_allocated_def)
  have "\<forall>e \<in> set (adj_refs h).
          list_items (list_append ?h' (length (list_objects h)) v) (snd e) = list_items ?h' (snd e)"
    using fresh by (simp add: list_items_list_append)
  then have "stored_graph (list_append ?h' (length (list_objects h)) v) = stored_graph ?h'"
    by (simp add: stored_graph_def list_append_def new_list_def)
  moreover have "list_items ?h' (length (list_objects h)) = []"
    by (simp add: list_items_def new_list_def)
  ultimately show ?thesis
    using None stored_new_list[OF assms]
    by (simp add: ref_get_neighbors_eq get_neighbors_stored)
next
  case (Some r)
  let ?h' = "snd (new_list h)"
  from Some have "(n, r) \<in> set (adj_refs h)" by (rule map_of_SomeD)
  with assms have r: "r < length (list_objects h)" by (force simp: refs_allocated_def)
  then have r': "r < length (list_objects ?h')" by (simp add: new_list_def)
  have adj: "adj_refs (list_append ?h' r v) = adj_refs h"
    by (simp add: list_append_def new_list_def)
  have "get_neighbors (stored_graph (list_append ?h' r v)) n = list_items ?h' r @ [v]"
    using Some r' by (simp add: get_neighbors_stored adj list_items_list_append)
  then show ?thesis
    using Some r stored_new_list[OF assms]
    by (simp add: ref_get_neighbors_eq get_neighbors_stored list_items_new_list)
qed

theorem get_neighbors_returns_stored_list_witness:
  "refs_allocated heap_AB \<and>
   map_of (adj_refs heap_AB) (StrN ''A'') = Some 0 \<and>
   fst (ref_get_neighbors heap_AB (StrN ''A'')) = 0 \<and>
   get_neighbors (stored_graph
       (list_append (snd (ref_get_neighbors heap_AB (StrN ''A''))) 0 (StrN ''C''))) (StrN ''A'')
     = get_neighbors (stored_graph heap_AB) (StrN ''A'') @ [StrN ''C''] \<and>
   map_of (adj_refs heap_AB) (StrN ''Z'') = None \<and>
   stored_graph (list_append (snd (ref_get_neighbors heap_AB (StrN ''Z'')))
       (fst (ref_get_neighbors heap_AB (StrN ''Z''))) (StrN ''C''))
     = stored_graph heap_AB"
proof -
  have h: "refs_allocated heap_AB" by (simp add: refs_allocated_def heap_AB_def)
  have a: "map_of (adj_refs heap_AB) (StrN ''A'') = Some 0" by (simp add: heap_AB_def)
  have z: "map_of (adj_refs heap_AB) (StrN ''Z'') = None" by (simp add: heap_AB_def)
  from get_neighbors_returns_stored_list[OF h, of "StrN ''A''" "StrN ''C''"] get_neighbors_returns_stored_list[OF h, of "StrN ''Z''" "StrN ''C''"] h a z
  show ?thesis by simp
qed

end
